theory Spec2Isabelle
  imports Main
begin

section \<open>JavaScript values, errors and the mutable world\<close>

text \<open>
  The streams of just-a-stream carry arbitrary JavaScript values (the type parameter
  \<open>T\<close> is erased at run time, and \<open>merge\<close> is used on streams of numbers and of strings
  together). The values the library itself builds are \<open>undefined\<close> (the initial
  \<open>last\<close>, an unassigned \<open>let\<close>) and two-element arrays (\<open>withLatestFrom\<close>).
\<close>

datatype jsval = Undefined | Num int | Str string | Arr "jsval list"

text \<open>The only \<open>throw\<close> of the library is \<open>throw new Error(message)\<close> in \<open>getBuffer\<close>.\<close>

datatype error = Error string

text \<open>
  The mutable fields of one \<open>JAStream\<close> instance: \<open>last\<close> and \<open>buffer\<close>. Arrays are
  modelled as values, read when they are looked at.
\<close>

record fields =
  last_f :: jsval
  buffer_f :: "jsval list"

text \<open>
  The world threaded through every call: the fields of the stream objects by object
  identity, the \<open>let\<close> variables captured by the producers' closures (\<open>acc\<close> in
  \<open>reduce\<close>, \<open>latest\<close> in \<open>withLatestFrom\<close>), the next unused identity, and the state of
  the caller (what its listeners write to).
\<close>

record 'u world =
  objs :: "nat \<Rightarrow> fields"
  vars :: "nat \<Rightarrow> jsval"
  fresh :: nat
  user :: 'u

text \<open>
  A call that returns \<open>void\<close> either throws or leaves a new world. \<open>Listener\<close> and
  \<open>DataGenerator\<close> are the types of the source; a generator is given the listener and
  calls it synchronously any number of times.
\<close>

type_synonym 'u Effect = "'u world \<Rightarrow> error + 'u world"
type_synonym 'u Listener = "jsval \<Rightarrow> 'u Effect"
type_synonym 'u DataGenerator = "'u Listener \<Rightarrow> 'u Effect"
type_synonym Predicate = "jsval \<Rightarrow> bool"
type_synonym Mapper = "jsval \<Rightarrow> jsval"
type_synonym Reducer = "jsval \<Rightarrow> jsval \<Rightarrow> jsval"

record JAStreamOptions =
  useBuffer_opt :: bool
  bufferSize_opt :: int

text \<open>
  A \<open>JAStream\<close> object: its identity \<open>ref\<close> (where its \<open>last\<close> and \<open>buffer\<close> live in
  the world) and the fields that are assigned in the constructor only.
\<close>

record 'u JAStream =
  ref :: nat
  generator :: "'u DataGenerator"
  useBuffer :: bool
  bufferSize :: int

section \<open>Built-ins of the language\<close>

text \<open>
  \<open>Array.prototype.slice(start, end)\<close>: a negative index counts from the end, and both
  are clamped to the array. \<open>slice(start)\<close> takes \<open>end\<close> to be the length.
\<close>

definition slice :: "int \<Rightarrow> int \<Rightarrow> 'a list \<Rightarrow> 'a list" where
  "slice start fin xs =
     (let len = int (length xs);
          k = (if start < 0 then max (len + start) 0 else min start len);
          final = (if fin < 0 then max (len + fin) 0 else min fin len)
      in take (nat (final - k)) (drop (nat k) xs))"

definition slice_from :: "int \<Rightarrow> 'a list \<Rightarrow> 'a list" where
  "slice_from start xs = slice start (int (length xs)) xs"

text \<open>\<open>xs.forEach(f)\<close>: the calls in order; a throw ends the loop.\<close>

fun forEach :: "'a list \<Rightarrow> ('a \<Rightarrow> 'u Effect) \<Rightarrow> 'u Effect" where
  "forEach [] f w = Inr w"
| "forEach (x # xs) f w = (case f x w of Inl e \<Rightarrow> Inl e | Inr w' \<Rightarrow> forEach xs f w')"

text \<open>Two statements in sequence.\<close>

definition seq :: "'u Effect \<Rightarrow> 'u Effect \<Rightarrow> 'u Effect" where
  "seq a b w = (case a w of Inl e \<Rightarrow> Inl e | Inr w' \<Rightarrow> b w')"

section \<open>The class with \<open>JAStreamOptions\<close> (src/unnamed/part_002)\<close>

text \<open>
  \<open>new JAStream(generator, options)\<close>: a new object with \<open>last = undefined\<close>,
  \<open>buffer = []\<close>, and \<open>useBuffer = false\<close>, \<open>bufferSize = 1\<close> unless options are given.
\<close>

definition constructor ::
  "'u DataGenerator \<Rightarrow> JAStreamOptions option \<Rightarrow> 'u world \<Rightarrow> 'u JAStream \<times> 'u world" where
  "constructor gen options w =
     (let r = fresh w;
          this = \<lparr>ref = r, generator = gen,
                  useBuffer = (case options of None \<Rightarrow> False | Some opt \<Rightarrow> useBuffer_opt opt),
                  bufferSize = (case options of None \<Rightarrow> 1 | Some opt \<Rightarrow> bufferSize_opt opt)\<rparr>
      in (this, w\<lparr>objs := (objs w)(r := \<lparr>last_f = Undefined, buffer_f = []\<rparr>),
                  fresh := r + 1\<rparr>))"

text \<open>\<open>this.last = x\<close> and \<open>this.buffer = b\<close>.\<close>

definition assign_last :: "'u JAStream \<Rightarrow> jsval \<Rightarrow> 'u world \<Rightarrow> 'u world" where
  "assign_last this x w = w\<lparr>objs := (objs w)(ref this := (objs w (ref this))\<lparr>last_f := x\<rparr>)\<rparr>"

definition assign_buffer :: "'u JAStream \<Rightarrow> jsval list \<Rightarrow> 'u world \<Rightarrow> 'u world" where
  "assign_buffer this b w = w\<lparr>objs := (objs w)(ref this := (objs w (ref this))\<lparr>buffer_f := b\<rparr>)\<rparr>"

text \<open>
  The arrow function that \<open>subscribe\<close> hands to the generator:
  \<^verbatim>\<open>(x) => { this.last = x;
            if (this.useBuffer) { this.buffer.push(x);
                                  this.buffer = this.buffer.slice(this.bufferSize * -1); }
            listener(x); }\<close>
\<close>

definition subscribe_callback :: "'u JAStream \<Rightarrow> 'u Listener \<Rightarrow> 'u Listener" where
  "subscribe_callback this listener x w =
     (let w1 = assign_last this x w;
          w2 = (if useBuffer this
                then (let pushed = buffer_f (objs w1 (ref this)) @ [x]
                      in assign_buffer this (slice_from (bufferSize this * -1) pushed) w1)
                else w1)
      in listener x w2)"

definition subscribe :: "'u JAStream \<Rightarrow> 'u Listener \<Rightarrow> 'u Effect" where
  "subscribe this listener = generator this (subscribe_callback this listener)"

definition filter_stream :: "'u JAStream \<Rightarrow> Predicate \<Rightarrow> 'u world \<Rightarrow> 'u JAStream \<times> 'u world" where
  "filter_stream this pred =
     constructor (\<lambda>next. generator this (\<lambda>x w. if pred x then next x w else Inr w)) None"

definition map_stream :: "'u JAStream \<Rightarrow> Mapper \<Rightarrow> 'u world \<Rightarrow> 'u JAStream \<times> 'u world" where
  "map_stream this mapFn =
     constructor (\<lambda>next. generator this (\<lambda>x. next (mapFn x))) None"

text \<open>
  \<open>reduce\<close>: every run of the producer declares its own \<open>let acc = initialValue\<close>, a new
  variable that the callback given to the parent's generator reads and assigns.
\<close>

definition reduce ::
  "'u JAStream \<Rightarrow> Reducer \<Rightarrow> jsval \<Rightarrow> 'u world \<Rightarrow> 'u JAStream \<times> 'u world" where
  "reduce this fn initialValue =
     constructor (\<lambda>next w0.
       let acc = fresh w0;
           w1 = w0\<lparr>vars := (vars w0)(acc := initialValue), fresh := acc + 1\<rparr>
       in generator this
            (\<lambda>x w. let v = fn (vars w acc) x
                   in next v (w\<lparr>vars := (vars w)(acc := v)\<rparr>)) w1) None"

text \<open>
  \<open>getLast\<close> and \<open>getBuffer\<close> read the world and assign nothing, so they return a
  value and no world. \<open>getBuffer_error\<close> is the error that \<open>getBuffer\<close> throws.
\<close>

definition getLast :: "'u JAStream \<Rightarrow> 'u world \<Rightarrow> jsval" where
  "getLast this w = last_f (objs w (ref this))"

definition getBuffer_error :: error where
  "getBuffer_error = Error ''In order to use buffer you must specify it on the JAStreamOptions as useBuffer=boolean and bufferSize=number''"

definition getBuffer :: "'u JAStream \<Rightarrow> 'u world \<Rightarrow> error + jsval list" where
  "getBuffer this w =
     (if useBuffer this then Inr (buffer_f (objs w (ref this)))
      else Inl getBuffer_error)"

text \<open>\<open>JAStream.from(xs)\<close> and \<open>JAStream.merge(...streams)\<close>.\<close>

definition from_array :: "jsval list \<Rightarrow> 'u world \<Rightarrow> 'u JAStream \<times> 'u world" where
  "from_array xs = constructor (\<lambda>next. forEach xs (\<lambda>x. next x)) None"

definition merge :: "'u JAStream list \<Rightarrow> 'u world \<Rightarrow> 'u JAStream \<times> 'u world" where
  "merge streams =
     constructor (\<lambda>next. forEach streams (\<lambda>stream. subscribe stream next)) None"

section \<open>The class of src/src/index.ts\<close>

text \<open>
  src/src/index.ts holds another revision of the class: its constructor takes no
  options, \<open>subscribe\<close> always pushes to the buffer and keeps \<open>slice(0, 10)\<close>,
  \<open>getBuffer\<close> never throws, and it has \<open>withLatestFrom\<close>. Its \<open>filter\<close>, \<open>map\<close>,
  \<open>reduce\<close>, \<open>getLast\<close> and \<open>from\<close> are the ones above word for word, and so is \<open>merge\<close>,
  which calls the \<open>subscribe\<close> of its own class; it never reads \<open>useBuffer\<close> and
  \<open>bufferSize\<close>. (src/index.js is JavaScript compiled from this class before it had a
  buffer: the same methods, and a \<open>subscribe\<close> that assigns \<open>last\<close> and calls the
  listener.)
\<close>

definition subscribe_callback_ts :: "'u JAStream \<Rightarrow> 'u Listener \<Rightarrow> 'u Listener" where
  "subscribe_callback_ts this listener x w =
     (let w1 = assign_last this x w;
          pushed = buffer_f (objs w1 (ref this)) @ [x];
          w2 = assign_buffer this (slice 0 10 pushed) w1
      in listener x w2)"

definition subscribe_ts :: "'u JAStream \<Rightarrow> 'u Listener \<Rightarrow> 'u Effect" where
  "subscribe_ts this listener = generator this (subscribe_callback_ts this listener)"

text \<open>
  \<open>withLatestFrom\<close>: \<open>let latest\<close> is a new, unassigned variable of every run of the
  producer; the pair handed on is \<open>[this.last, latest]\<close>, read when the parent's
  generator delivers a value.
\<close>

definition withLatestFrom ::
  "'u JAStream \<Rightarrow> 'u JAStream \<Rightarrow> 'u world \<Rightarrow> 'u JAStream \<times> 'u world" where
  "withLatestFrom this otherStream =
     constructor (\<lambda>next w0.
       let latest = fresh w0;
           w1 = w0\<lparr>vars := (vars w0)(latest := Undefined), fresh := latest + 1\<rparr>
       in seq (subscribe_ts otherStream (\<lambda>x w. Inr (w\<lparr>vars := (vars w)(latest := x)\<rparr>)))
              (generator this
                 (\<lambda>y w. next (Arr [last_f (objs w (ref this)), vars w latest]) w)) w1) None"

definition getBuffer_ts :: "'u JAStream \<Rightarrow> 'u world \<Rightarrow> jsval list" where
  "getBuffer_ts this w = buffer_f (objs w (ref this))"

definition merge_ts :: "'u JAStream list \<Rightarrow> 'u world \<Rightarrow> 'u JAStream \<times> 'u world" where
  "merge_ts streams =
     constructor (\<lambda>next. forEach streams (\<lambda>stream. subscribe_ts stream next)) None"

section \<open>The listener of the tests\<close>

text \<open>
  \<open>jest.fn()\<close>, the listener of the repository's tests: it records the value of every
  call, in order, and does nothing else.
\<close>

definition mockListener :: "(jsval list) Listener" where
  "mockListener x w = Inr (w\<lparr>user := user w @ [x]\<rparr>)"

text \<open>
  A listener that looks at the stream it is subscribed to, as the one of the README's
  buffer example does (\<open>console.log(event, stream.getBuffer())\<close>): it records the
  value it is called with, together with what \<open>getLast\<close> and \<open>getBuffer\<close> return at
  that moment.
\<close>

type_synonym snapshot = "jsval \<times> jsval \<times> (error + jsval list)"

definition probe :: "(snapshot list) JAStream \<Rightarrow> (snapshot list) Listener" where
  "probe stream x w = Inr (w\<lparr>user := user w @ [(x, getLast stream w, getBuffer stream w)]\<rparr>)"

text \<open>The world before anything has been allocated, with the caller's state \<open>u\<close>.\<close>

definition empty_world :: "'u \<Rightarrow> 'u world" where
  "empty_world u = \<lparr>objs = (\<lambda>_. \<lparr>last_f = Undefined, buffer_f = []\<rparr>),
                     vars = (\<lambda>_. Undefined), fresh = 0, user = u\<rparr>"

section \<open>Notions of the specification\<close>

text \<open>What is read in the world a call leaves, when it does not throw.\<close>

definition after :: "error + 'u world \<Rightarrow> ('u world \<Rightarrow> 'a) \<Rightarrow> error + 'a" where
  "after r f = (case r of Inl e \<Rightarrow> Inl e | Inr w \<Rightarrow> Inr (f w))"

text \<open>
  A producer that emits synchronously and exhaustively: called with a listener, it
  calls it on the values \<open>xs\<close> in order and returns.
\<close>

definition emits :: "'u JAStream \<Rightarrow> jsval list \<Rightarrow> bool" where
  "emits stream xs \<longleftrightarrow> generator stream = (\<lambda>next. forEach xs next)"

text \<open>The most recent \<open>n\<close> values of a history, oldest first.\<close>

definition most_recent :: "nat \<Rightarrow> 'a list \<Rightarrow> 'a list" where
  "most_recent n xs = drop (length xs - n) xs"

text \<open>The running folds \<open>[R(V,s1), R(R(V,s1),s2), \<dots>]\<close>.\<close>

fun running_folds :: "Reducer \<Rightarrow> jsval \<Rightarrow> jsval list \<Rightarrow> jsval list" where
  "running_folds R V [] = []"
| "running_folds R V (x # xs) = R V x # running_folds R (R V x) xs"

section \<open>The state changes of one emission\<close>

text \<open>
  What the callback of \<open>subscribe\<close> has done to the world when it calls the listener,
  in each of the two revisions.
\<close>

definition noted :: "'u JAStream \<Rightarrow> jsval \<Rightarrow> 'u world \<Rightarrow> 'u world" where
  "noted this x w =
     (let w1 = assign_last this x w
      in if useBuffer this
         then assign_buffer this
                (slice_from (bufferSize this * -1) (buffer_f (objs w1 (ref this)) @ [x])) w1
         else w1)"

definition noted_ts :: "'u JAStream \<Rightarrow> jsval \<Rightarrow> 'u world \<Rightarrow> 'u world" where
  "noted_ts this x w =
     (let w1 = assign_last this x w
      in assign_buffer this (slice 0 10 (buffer_f (objs w1 (ref this)) @ [x])) w1)"

text \<open>The same changes, as functions of the fields of the stream object alone.\<close>

definition note_fields :: "'u JAStream \<Rightarrow> jsval \<Rightarrow> fields \<Rightarrow> fields" where
  "note_fields this x f =
     (if useBuffer this
      then f\<lparr>last_f := x, buffer_f := slice_from (bufferSize this * -1) (buffer_f f @ [x])\<rparr>
      else f\<lparr>last_f := x\<rparr>)"

definition note_fields_ts :: "'u JAStream \<Rightarrow> jsval \<Rightarrow> fields \<Rightarrow> fields" where
  "note_fields_ts this x f = f\<lparr>last_f := x, buffer_f := slice 0 10 (buffer_f f @ [x])\<rparr>"

section \<open>Basic facts\<close>

lemma constructor_sel [simp]:
  "ref (fst (constructor g opt w)) = fresh w"
  "generator (fst (constructor g opt w)) = g"
  "useBuffer (fst (constructor g opt w)) = (case opt of None \<Rightarrow> False | Some opt \<Rightarrow> useBuffer_opt opt)"
  "bufferSize (fst (constructor g opt w)) = (case opt of None \<Rightarrow> 1 | Some opt \<Rightarrow> bufferSize_opt opt)"
  by (simp_all add: constructor_def Let_def)

lemma constructor_world [simp]:
  "objs (snd (constructor g opt w)) = (objs w)(fresh w := \<lparr>last_f = Undefined, buffer_f = []\<rparr>)"
  "vars (snd (constructor g opt w)) = vars w"
  "fresh (snd (constructor g opt w)) = Suc (fresh w)"
  "user (snd (constructor g opt w)) = user w"
  by (simp_all add: constructor_def Let_def)

lemma after_Inr [simp]: "after (Inr w) f = Inr (f w)"
  by (simp add: after_def)

lemma after_Inl [simp]: "after (Inl e) f = Inl e"
  by (simp add: after_def)

lemma forEach_append:
  "forEach (xs @ ys) f w = (case forEach xs f w of Inl e \<Rightarrow> Inl e | Inr w' \<Rightarrow> forEach ys f w')"
  by (induction xs arbitrary: w) (simp_all split: sum.splits)

lemma forEach_filter:
  "forEach xs (\<lambda>x w. if P x then g x w else Inr w) w = forEach (filter P xs) g w"
  by (induction xs arbitrary: w) (simp_all split: sum.splits)

lemma subscribe_callback_noted:
  "subscribe_callback this listener x w = listener x (noted this x w)"
  by (simp add: subscribe_callback_def noted_def Let_def)

lemma subscribe_callback_ts_noted:
  "subscribe_callback_ts this listener x w = listener x (noted_ts this x w)"
  by (simp add: subscribe_callback_ts_def noted_ts_def Let_def)

lemma noted_sel [simp]:
  "user (noted this x w) = user w"
  "vars (noted this x w) = vars w"
  "fresh (noted this x w) = fresh w"
  "last_f (objs (noted this x w) (ref this)) = x"
  "r \<noteq> ref this \<Longrightarrow> objs (noted this x w) r = objs w r"
  by (simp_all add: noted_def assign_last_def assign_buffer_def Let_def)

lemma noted_ts_sel [simp]:
  "user (noted_ts this x w) = user w"
  "vars (noted_ts this x w) = vars w"
  "fresh (noted_ts this x w) = fresh w"
  "last_f (objs (noted_ts this x w) (ref this)) = x"
  "r \<noteq> ref this \<Longrightarrow> objs (noted_ts this x w) r = objs w r"
  by (simp_all add: noted_ts_def assign_last_def assign_buffer_def Let_def)

lemma noted_user_update:
  "noted this x (w\<lparr>user := u\<rparr>) = (noted this x w)\<lparr>user := u\<rparr>"
  by (simp add: noted_def assign_last_def assign_buffer_def Let_def)

lemma noted_ts_user_update:
  "noted_ts this x (w\<lparr>user := u\<rparr>) = (noted_ts this x w)\<lparr>user := u\<rparr>"
  by (simp add: noted_ts_def assign_last_def assign_buffer_def Let_def)

text \<open>A run of callbacks that change the world and then call the recording listener.\<close>

lemma forEach_recording:
  assumes cb: "\<And>x w. cb x w = mockListener x (upd x w)"
    and comm: "\<And>x w u. upd x (w\<lparr>user := u\<rparr>) = (upd x w)\<lparr>user := u\<rparr>"
  shows "forEach xs cb w = Inr ((fold upd xs w)\<lparr>user := user w @ xs\<rparr>)"
proof -
  have fold_comm: "fold upd ys (v\<lparr>user := u\<rparr>) = (fold upd ys v)\<lparr>user := u\<rparr>" for ys v u
    by (induction ys arbitrary: v) (simp_all add: comm)
  have user_fold: "user (fold upd ys v) = user v" for ys v
  proof -
    have "fold upd ys (v\<lparr>user := user v\<rparr>) = (fold upd ys v)\<lparr>user := user v\<rparr>"
      by (rule fold_comm)
    then have "fold upd ys v = (fold upd ys v)\<lparr>user := user v\<rparr>" by simp
    then have "user (fold upd ys v) = user ((fold upd ys v)\<lparr>user := user v\<rparr>)" by simp
    then show ?thesis by simp
  qed
  show ?thesis
  proof (induction xs arbitrary: w)
    case Nil
    show ?case by simp
  next
    case (Cons x xs)
    have step: "cb x w = Inr ((upd x w)\<lparr>user := user (upd x w) @ [x]\<rparr>)"
      by (simp add: cb mockListener_def)
    have "user (upd x w) = user w"
      using user_fold [of "[x]" w] by simp
    with step have "forEach (x # xs) cb w = forEach xs cb ((upd x w)\<lparr>user := user w @ [x]\<rparr>)"
      by simp
    also have "\<dots> = Inr ((fold upd xs (upd x w))\<lparr>user := user w @ x # xs\<rparr>)"
      unfolding Cons.IH by (simp add: fold_comm)
    finally show ?case by simp
  qed
qed

lemma forEach_mock:
  "forEach xs (subscribe_callback this mockListener) w =
     Inr ((fold (noted this) xs w)\<lparr>user := user w @ xs\<rparr>)"
  by (rule forEach_recording) (simp_all add: subscribe_callback_noted noted_user_update)

lemma forEach_mock_ts:
  "forEach xs (subscribe_callback_ts this mockListener) w =
     Inr ((fold (noted_ts this) xs w)\<lparr>user := user w @ xs\<rparr>)"
  by (rule forEach_recording) (simp_all add: subscribe_callback_ts_noted noted_ts_user_update)

lemma subscribe_emits:
  "emits this xs \<Longrightarrow> subscribe this l = forEach xs (subscribe_callback this l)"
  by (simp add: subscribe_def emits_def)

lemma subscribe_ts_emits:
  "emits this xs \<Longrightarrow> subscribe_ts this l = forEach xs (subscribe_callback_ts this l)"
  by (simp add: subscribe_ts_def emits_def)

lemma emits_from: "emits (fst (from_array S w0)) S"
  by (simp add: emits_def from_array_def)

section \<open>C1: \<open>from\<close> replays its sequence to every subscription\<close>

text \<open>
  Claim C1. For every finite sequence \<open>S\<close>, a \<open>subscribe\<close> on \<open>JAStream.from(S)\<close>
  runs the callback of \<open>subscribe\<close> (the state updates, then the listener) once for
  each element of \<open>S\<close>, in order, whatever the listener and whatever the world the
  call starts in; so the recording listener of the tests has \<open>S\<close> appended to its
  calls, that is \<open>len(S)\<close> calls with the elements in their original order. Every
  \<open>subscribe\<close> replays the whole sequence: after two calls the recorded calls have grown
  by \<open>S\<close> twice. This holds with the \<open>subscribe\<close> of either revision of the class.
\<close>

theorem from_subscribe_replays:
  "subscribe (fst (from_array S w0)) listener w
     = forEach S (subscribe_callback (fst (from_array S w0)) listener) w
   \<and> subscribe_ts (fst (from_array S w0)) listener w
     = forEach S (subscribe_callback_ts (fst (from_array S w0)) listener) w
   \<and> after (subscribe (fst (from_array S v0)) mockListener v) user = Inr (user v @ S)
   \<and> after (subscribe_ts (fst (from_array S v0)) mockListener v) user = Inr (user v @ S)
   \<and> after (seq (subscribe (fst (from_array S v0)) mockListener)
                (subscribe (fst (from_array S v0)) mockListener) v) user = Inr (user v @ S @ S)
   \<and> after (seq (subscribe_ts (fst (from_array S v0)) mockListener)
                (subscribe_ts (fst (from_array S v0)) mockListener) v) user = Inr (user v @ S @ S)"
  by (simp add: subscribe_emits [OF emits_from] subscribe_ts_emits [OF emits_from]
      forEach_mock forEach_mock_ts seq_def)


lemma subscribe_filter_from:
  "subscribe (fst (filter_stream (fst (from_array S w0)) P w1)) l w
     = forEach (filter P S) (subscribe_callback (fst (filter_stream (fst (from_array S w0)) P w1)) l) w"
  by (simp add: subscribe_def filter_stream_def from_array_def forEach_filter)

lemma subscribe_ts_filter_from:
  "subscribe_ts (fst (filter_stream (fst (from_array S w0)) P w1)) l w
     = forEach (filter P S) (subscribe_callback_ts (fst (filter_stream (fst (from_array S w0)) P w1)) l) w"
  by (simp add: subscribe_ts_def filter_stream_def from_array_def forEach_filter)

section \<open>C6: \<open>filter\<close> over \<open>from\<close>\<close>

text \<open>
  Claim C6. For every predicate \<open>P\<close> and sequence \<open>S\<close>, a \<open>subscribe\<close> on
  \<open>from(S).filter(P)\<close> runs the callback of \<open>subscribe\<close> once for each element of the
  subsequence of \<open>S\<close> that satisfies \<open>P\<close>, in the original order, and for no other
  element; the recording listener has exactly that subsequence appended to its calls.
  This holds with the \<open>subscribe\<close> of either revision of the class.
\<close>

theorem filter_emits_subsequence:
  "subscribe (fst (filter_stream (fst (from_array S w0)) P w1)) listener w
     = forEach (filter P S)
         (subscribe_callback (fst (filter_stream (fst (from_array S w0)) P w1)) listener) w
   \<and> subscribe_ts (fst (filter_stream (fst (from_array S w0)) P w1)) listener w
     = forEach (filter P S)
         (subscribe_callback_ts (fst (filter_stream (fst (from_array S w0)) P w1)) listener) w
   \<and> after (subscribe (fst (filter_stream (fst (from_array S v0)) P v1)) mockListener v) user
     = Inr (user v @ filter P S)
   \<and> after (subscribe_ts (fst (filter_stream (fst (from_array S v0)) P v1)) mockListener v) user
     = Inr (user v @ filter P S)"
  by (simp add: subscribe_filter_from subscribe_ts_filter_from forEach_mock forEach_mock_ts)

section \<open>C2: \<open>reduce\<close> over \<open>from\<close>\<close>

lemma forEach_reduce_steps:
  assumes step: "\<And>x w. \<exists>w'. f x w = Inr w' \<and> user w' = user w @ [R (vars w acc) x]
                        \<and> vars w' acc = R (vars w acc) x"
  shows "after (forEach xs f w) user = Inr (user w @ running_folds R (vars w acc) xs)"
proof (induction xs arbitrary: w)
  case Nil
  show ?case by simp
next
  case (Cons x xs)
  from step [of x w] obtain w' where w': "f x w = Inr w'"
    "user w' = user w @ [R (vars w acc) x]" "vars w' acc = R (vars w acc) x"
    by blast
  have "forEach (x # xs) f w = forEach xs f w'"
    by (simp add: w'(1))
  then show ?case
    using Cons.IH [of w'] w'(2,3) by simp
qed

lemma subscribe_reduce_from:
  "after (subscribe (fst (reduce (fst (from_array S v0)) R V v1)) mockListener v) user
     = Inr (user v @ running_folds R V S)"
proof -
  let ?r = "fst (reduce (fst (from_array S v0)) R V v1)"
  let ?w1 = "v\<lparr>vars := (vars v)(fresh v := V), fresh := fresh v + 1\<rparr>"
  have "subscribe ?r mockListener v
        = forEach S (\<lambda>x w. let y = R (vars w (fresh v)) x
                            in subscribe_callback ?r mockListener y (w\<lparr>vars := (vars w)(fresh v := y)\<rparr>)) ?w1"
    by (simp add: subscribe_def reduce_def from_array_def Let_def)
  moreover have "after (forEach S (\<lambda>x w. let y = R (vars w (fresh v)) x
                            in subscribe_callback ?r mockListener y (w\<lparr>vars := (vars w)(fresh v := y)\<rparr>)) ?w1) user
        = Inr (user ?w1 @ running_folds R (vars ?w1 (fresh v)) S)"
    by (rule forEach_reduce_steps)
       (simp add: subscribe_callback_noted mockListener_def Let_def)
  ultimately show ?thesis by simp
qed


lemma subscribe_ts_reduce_from:
  "after (subscribe_ts (fst (reduce (fst (from_array S v0)) R V v1)) mockListener v) user
     = Inr (user v @ running_folds R V S)"
proof -
  let ?r = "fst (reduce (fst (from_array S v0)) R V v1)"
  let ?w1 = "v\<lparr>vars := (vars v)(fresh v := V), fresh := fresh v + 1\<rparr>"
  have "subscribe_ts ?r mockListener v
        = forEach S (\<lambda>x w. let y = R (vars w (fresh v)) x
                            in subscribe_callback_ts ?r mockListener y (w\<lparr>vars := (vars w)(fresh v := y)\<rparr>)) ?w1"
    by (simp add: subscribe_ts_def reduce_def from_array_def Let_def)
  moreover have "after (forEach S (\<lambda>x w. let y = R (vars w (fresh v)) x
                            in subscribe_callback_ts ?r mockListener y (w\<lparr>vars := (vars w)(fresh v := y)\<rparr>)) ?w1) user
        = Inr (user ?w1 @ running_folds R (vars ?w1 (fresh v)) S)"
    by (rule forEach_reduce_steps)
       (simp add: subscribe_callback_ts_noted mockListener_def Let_def)
  ultimately show ?thesis by simp
qed

lemma after_seq:
  assumes "\<And>w. after (a w) user = Inr (user w @ xs)"
    and "\<And>w. after (b w) user = Inr (user w @ ys)"
  shows "after (seq a b w) user = Inr (user w @ xs @ ys)"
proof -
  from assms(1) [of w] obtain w' where w': "a w = Inr w'" "user w' = user w @ xs"
    by (cases "a w") (auto simp: after_def)
  from assms(2) [of w'] w' show ?thesis
    by (simp add: seq_def)
qed

lemma length_running_folds: "length (running_folds R V S) = length S"
  by (induction S arbitrary: V) simp_all

lemma running_folds_nth:
  "running_folds R V S = map (\<lambda>i. foldl R V (take (Suc i) S)) [0..<length S]"
proof (induction S arbitrary: V)
  case Nil
  show ?case by simp
next
  case (Cons x xs)
  have "map (\<lambda>i. foldl R V (take (Suc i) (x # xs))) [0..<length (x # xs)]
        = foldl R V [x] # map (\<lambda>i. foldl R V (take (Suc (Suc i)) (x # xs))) [0..<length xs]"
    by (simp add: upt_conv_Cons map_Suc_upt [symmetric] del: upt_Suc)
  then show ?case by (simp add: Cons.IH)
qed

text \<open>
  Claim C2. For every reducer \<open>R\<close>, seed \<open>V\<close> and sequence \<open>S = [s1..sn]\<close>, a
  \<open>subscribe\<close> on \<open>from(S).reduce(R, V)\<close> calls the recording listener with the running
  folds \<open>R(V,s1), R(R(V,s1),s2), \<dots>\<close> in order: \<open>n\<close> calls, the \<open>i\<close>-th with the fold of
  the first \<open>i\<close> elements from \<open>V\<close>, and none for the seed. This holds in every world the
  call starts in, so every subscription starts from the accumulator \<open>V\<close>: two
  subscriptions in a row record the same running folds twice. This holds with the
  \<open>subscribe\<close> of either revision of the class.
\<close>

theorem reduce_emits_running_folds:
  "after (subscribe (fst (reduce (fst (from_array S v0)) R V v1)) mockListener v) user
     = Inr (user v @ running_folds R V S)
   \<and> after (subscribe_ts (fst (reduce (fst (from_array S v0)) R V v1)) mockListener v) user
     = Inr (user v @ running_folds R V S)
   \<and> running_folds R V S = map (\<lambda>i. foldl R V (take (Suc i) S)) [0..<length S]
   \<and> length (running_folds R V S) = length S
   \<and> after (seq (subscribe (fst (reduce (fst (from_array S v0)) R V v1)) mockListener)
                (subscribe (fst (reduce (fst (from_array S v0)) R V v1)) mockListener) v) user
     = Inr (user v @ running_folds R V S @ running_folds R V S)
   \<and> after (seq (subscribe_ts (fst (reduce (fst (from_array S v0)) R V v1)) mockListener)
                (subscribe_ts (fst (reduce (fst (from_array S v0)) R V v1)) mockListener) v) user
     = Inr (user v @ running_folds R V S @ running_folds R V S)"
proof -
  note one = subscribe_reduce_from [of S v0 R V v1] subscribe_ts_reduce_from [of S v0 R V v1]
  have "after (seq (subscribe (fst (reduce (fst (from_array S v0)) R V v1)) mockListener)
                (subscribe (fst (reduce (fst (from_array S v0)) R V v1)) mockListener) v) user
     = Inr (user v @ running_folds R V S @ running_folds R V S)"
    by (rule after_seq) (rule one(1))+
  moreover have "after (seq (subscribe_ts (fst (reduce (fst (from_array S v0)) R V v1)) mockListener)
                (subscribe_ts (fst (reduce (fst (from_array S v0)) R V v1)) mockListener) v) user
     = Inr (user v @ running_folds R V S @ running_folds R V S)"
    by (rule after_seq) (rule one(2))+
  ultimately show ?thesis
    using one running_folds_nth [of R V S] length_running_folds [of R V S] by blast
qed


section \<open>The buffer\<close>

lemma slice_from_negative:
  "1 \<le> n \<Longrightarrow> slice_from (- n) ys = most_recent (nat n) ys"
  by (simp add: slice_from_def slice_def most_recent_def Let_def nat_diff_distrib' max_def)

lemma slice_from_zero: "slice_from 0 ys = ys"
  by (simp add: slice_from_def slice_def)

lemma slice_first: "slice 0 (int n) ys = take n ys"
  by (simp add: slice_def Let_def min_def)

lemma most_recent_append:
  "most_recent n (most_recent n ys @ zs) = most_recent n (ys @ zs)"
proof (cases "length ys \<le> n")
  case True
  then show ?thesis by (simp add: most_recent_def)
next
  case False
  then have "n + length zs - n + (length ys - n) = length ys + length zs - n"
    and "n + length zs - n - n = length ys + length zs - n - length ys"
    by arith+
  with False show ?thesis
    by (simp add: most_recent_def min_def)
qed

lemma most_recent_short: "length b \<le> n \<Longrightarrow> most_recent n b = b"
  by (simp add: most_recent_def)

lemma length_most_recent: "length (most_recent n xs) = min (length xs) n"
  by (simp add: most_recent_def)

lemma noted_buffer:
  "buffer_f (objs (noted this x w) (ref this)) =
     (if useBuffer this
      then slice_from (bufferSize this * -1) (buffer_f (objs w (ref this)) @ [x])
      else buffer_f (objs w (ref this)))"
  by (simp add: noted_def assign_last_def assign_buffer_def Let_def)

lemma noted_ts_buffer:
  "buffer_f (objs (noted_ts this x w) (ref this)) = slice 0 10 (buffer_f (objs w (ref this)) @ [x])"
  by (simp add: noted_ts_def assign_last_def assign_buffer_def Let_def)

lemma fold_noted_sel [simp]:
  "user (fold (noted this) xs w) = user w"
  "vars (fold (noted this) xs w) = vars w"
  "fresh (fold (noted this) xs w) = fresh w"
  by (induction xs arbitrary: w) simp_all

lemma fold_noted_other:
  "r \<noteq> ref this \<Longrightarrow> objs (fold (noted this) xs w) r = objs w r"
  by (induction xs arbitrary: w) simp_all

lemma fold_noted_last:
  "last_f (objs (fold (noted this) xs w) (ref this)) =
     (if xs = [] then last_f (objs w (ref this)) else last xs)"
  by (induction xs arbitrary: w) simp_all

lemma fold_noted_buffer_off:
  "\<not> useBuffer this \<Longrightarrow>
   buffer_f (objs (fold (noted this) xs w) (ref this)) = buffer_f (objs w (ref this))"
  by (induction xs arbitrary: w) (simp_all add: noted_buffer)

lemma fold_noted_buffer:
  assumes "useBuffer this" and "1 \<le> bufferSize this"
    and "length (buffer_f (objs w (ref this))) \<le> nat (bufferSize this)"
  shows "buffer_f (objs (fold (noted this) xs w) (ref this))
         = most_recent (nat (bufferSize this)) (buffer_f (objs w (ref this)) @ xs)"
  using assms(3)
proof (induction xs arbitrary: w)
  case Nil
  then show ?case by (simp add: most_recent_short)
next
  case (Cons x xs)
  let ?n = "nat (bufferSize this)"
  let ?b = "buffer_f (objs w (ref this))"
  have b': "buffer_f (objs (noted this x w) (ref this)) = most_recent ?n (?b @ [x])"
    using assms(1,2) by (simp add: noted_buffer slice_from_negative)
  then have "length (buffer_f (objs (noted this x w) (ref this))) \<le> ?n"
    by (simp add: length_most_recent)
  from Cons.IH [OF this]
  have "buffer_f (objs (fold (noted this) (x # xs) w) (ref this))
        = most_recent ?n (most_recent ?n (?b @ [x]) @ xs)"
    by (simp add: b')
  also have "\<dots> = most_recent ?n ((?b @ [x]) @ xs)"
    by (rule most_recent_append)
  finally show ?case by simp
qed

lemma fold_noted_buffer_zero:
  assumes "useBuffer this" and "bufferSize this = 0"
  shows "buffer_f (objs (fold (noted this) xs w) (ref this)) = buffer_f (objs w (ref this)) @ xs"
  by (induction xs arbitrary: w) (simp_all add: noted_buffer assms slice_from_zero)

lemma fold_noted_ts_buffer:
  "buffer_f (objs (fold (noted_ts this) xs w) (ref this)) =
     (if xs = [] then buffer_f (objs w (ref this)) else take 10 (buffer_f (objs w (ref this)) @ xs))"
proof (induction xs arbitrary: w)
  case Nil
  show ?case by simp
next
  case (Cons x xs)
  have "slice 0 10 ys = take 10 ys" for ys :: "jsval list"
    using slice_first [of 10 ys] by simp
  then show ?case
    by (simp add: Cons.IH noted_ts_buffer take_Cons' min_def)
qed


lemma forEach_mock_buffer:
  "after (forEach xs (subscribe_callback this mockListener) w) (getBuffer this)
     = Inr (getBuffer this (fold (noted this) xs w))"
  by (simp add: forEach_mock getBuffer_def)

text \<open>
  The buffer of src/src/index.ts, for comparison: \<open>slice(0, 10)\<close> after every push keeps
  the first ten values and drops every later one.
\<close>

lemma subscribe_ts_buffer_first_ten:
  "after (forEach xs (subscribe_callback_ts this mockListener) w) (getBuffer_ts this)
     = Inr (if xs = [] then getBuffer_ts this w else take 10 (getBuffer_ts this w @ xs))"
  by (simp add: forEach_mock_ts getBuffer_ts_def fold_noted_ts_buffer)

section \<open>C3: the buffer holds the most recent values\<close>

text \<open>
  Claim C3. Take a stream constructed with \<open>{useBuffer: true, bufferSize: n}\<close>,
  \<open>n \<ge> 1\<close>. After any sequence \<open>xs\<close> of emissions delivered to the callback of its
  \<open>subscribe\<close>, \<open>getBuffer\<close> returns the most recent \<open>min(len(xs), n)\<close> of them, oldest
  first. More generally the bound is an invariant: from any world in which the buffer
  of such a stream is no longer than \<open>n\<close>, further emissions \<open>ys\<close> leave the most recent
  \<open>n\<close> values of the old buffer followed by \<open>ys\<close>, so the oldest value is dropped first.
  The witness is the test of the repository: capacity 3 and the emissions 1 to 15
  leave \<open>[13, 14, 15]\<close>.
\<close>

theorem buffer_keeps_most_recent:
  assumes "1 \<le> n"
  shows "(let c = constructor gen (Some \<lparr>useBuffer_opt = True, bufferSize_opt = n\<rparr>) w0
          in after (forEach xs (subscribe_callback (fst c) mockListener) (snd c)) (getBuffer (fst c))
             = Inr (Inr (most_recent (nat n) xs)))
       \<and> (let c = constructor (\<lambda>next. forEach xs next)
                    (Some \<lparr>useBuffer_opt = True, bufferSize_opt = n\<rparr>) w0
          in after (subscribe (fst c) mockListener (snd c)) (getBuffer (fst c))
             = Inr (Inr (most_recent (nat n) xs)))
       \<and> length (most_recent (nat n) xs) = min (length xs) (nat n)
       \<and> (useBuffer this \<and> bufferSize this = n
            \<and> length (buffer_f (objs w (ref this))) \<le> nat n
          \<longrightarrow> after (forEach ys (subscribe_callback this mockListener) w) (getBuffer this)
              = Inr (Inr (most_recent (nat n) (buffer_f (objs w (ref this)) @ ys))))"
proof -
  have step: "after (forEach ys (subscribe_callback t mockListener) v) (getBuffer t)
              = Inr (Inr (most_recent (nat n) (buffer_f (objs v (ref t)) @ ys)))"
    if "useBuffer t" "bufferSize t = n" "length (buffer_f (objs v (ref t))) \<le> nat n"
    for t :: "(jsval list) JAStream" and v ys
    using that assms fold_noted_buffer [of t v ys]
    by (simp add: forEach_mock_buffer getBuffer_def)
  have new: "after (forEach xs (subscribe_callback (fst c) mockListener) (snd c)) (getBuffer (fst c))
        = Inr (Inr (most_recent (nat n) xs))"
    if "c = constructor g (Some \<lparr>useBuffer_opt = True, bufferSize_opt = n\<rparr>) w0"
    for c :: "(jsval list) JAStream \<times> (jsval list) world" and g
  proof -
    have "after (forEach xs (subscribe_callback (fst c) mockListener) (snd c)) (getBuffer (fst c))
        = Inr (Inr (most_recent (nat n) (buffer_f (objs (snd c) (ref (fst c))) @ xs)))"
      by (rule step) (simp_all add: that)
    then show ?thesis by (simp add: that)
  qed
  from new [of _ gen] new [of _ "\<lambda>next. forEach xs next"] show ?thesis
    using step [of this w ys] by (simp add: Let_def length_most_recent subscribe_def)
qed

theorem buffer_keeps_most_recent_witness:
  "(1::int) \<le> 3
   \<and> (let c = constructor
               (\<lambda>next. forEach [Num 1, Num 2, Num 3, Num 4, Num 5, Num 6, Num 7, Num 8, Num 9,
                                   Num 10, Num 11, Num 12, Num 13, Num 14, Num 15] next)
               (Some \<lparr>useBuffer_opt = True, bufferSize_opt = 3\<rparr>) (empty_world [])
        in after (subscribe (fst c) mockListener (snd c)) (getBuffer (fst c)))
       = Inr (Inr [Num 13, Num 14, Num 15])"
  using buffer_keeps_most_recent [of 3
      "\<lambda>next. forEach [Num 1, Num 2, Num 3, Num 4, Num 5, Num 6, Num 7, Num 8, Num 9,
                         Num 10, Num 11, Num 12, Num 13, Num 14, Num 15] next"
      "empty_world []"
      "[Num 1, Num 2, Num 3, Num 4, Num 5, Num 6, Num 7, Num 8, Num 9,
        Num 10, Num 11, Num 12, Num 13, Num 14, Num 15]"]
  by (simp add: Let_def subscribe_def most_recent_def)

section \<open>C10: capacity zero\<close>

text \<open>
  Claim C10. For a stream constructed with \<open>{useBuffer: true, bufferSize: 0}\<close> the
  truncation \<open>slice(0 * -1)\<close> keeps the whole array, so after the emissions \<open>xs\<close>
  (delivered to the callback of \<open>subscribe\<close> by any producer, or by one \<open>subscribe\<close> on a
  producer that emits \<open>xs\<close>) \<open>getBuffer\<close> returns all of \<open>xs\<close>, in order.
\<close>

theorem zero_capacity_never_truncates:
  "(let c = constructor gen (Some \<lparr>useBuffer_opt = True, bufferSize_opt = 0\<rparr>) w0
    in after (forEach xs (subscribe_callback (fst c) mockListener) (snd c)) (getBuffer (fst c))
       = Inr (Inr xs))
   \<and> (let c = constructor (\<lambda>next. forEach xs next)
                (Some \<lparr>useBuffer_opt = True, bufferSize_opt = 0\<rparr>) w0
      in after (subscribe (fst c) mockListener (snd c)) (getBuffer (fst c)) = Inr (Inr xs))
   \<and> slice_from (0 * -1) ys = ys"
proof -
  have "after (forEach xs (subscribe_callback (fst c) mockListener) (snd c)) (getBuffer (fst c))
        = Inr (Inr xs)"
    if "c = constructor g (Some \<lparr>useBuffer_opt = True, bufferSize_opt = 0\<rparr>) w0"
    for c :: "(jsval list) JAStream \<times> (jsval list) world" and g
    using fold_noted_buffer_zero [of "fst c" xs "snd c"]
    by (simp add: that forEach_mock_buffer getBuffer_def)
  then show ?thesis
    by (simp add: Let_def subscribe_def slice_from_zero)
qed



section \<open>C7: the state is updated before the listener is called\<close>

text \<open>
  Claim C7. A \<open>subscribe\<close> on a producer that emits \<open>xs\<close> runs the callback of
  \<open>subscribe\<close> on each value in turn, and for each value \<open>x\<close> the callback calls the
  listener in the world where \<open>last\<close> is already \<open>x\<close> and, if buffering is enabled, the
  buffer is already the old buffer with \<open>x\<close> pushed and \<open>slice(bufferSize * -1)\<close> taken. A
  listener that reads the stream when it is called therefore gets \<open>x\<close> from \<open>getLast\<close>
  and the updated buffer from \<open>getBuffer\<close>; with a capacity of at least 1 that buffer
  ends with \<open>x\<close>. The witness is the buffer example of the README.
\<close>

theorem state_updated_before_listener:
  "subscribe (fst (constructor (\<lambda>next. forEach xs next) options w0)) listener w
     = forEach xs (subscribe_callback (fst (constructor (\<lambda>next. forEach xs next) options w0))
                     listener) w
   \<and> subscribe_callback this listener x w
     = listener x
         (w\<lparr>objs := (objs w)(ref this :=
              \<lparr>last_f = x,
               buffer_f = (if useBuffer this
                           then slice_from (bufferSize this * -1) (buffer_f (objs w (ref this)) @ [x])
                           else buffer_f (objs w (ref this)))\<rparr>)\<rparr>)
   \<and> after (subscribe_callback s (probe s) x v) user
     = Inr (user v @
            [(x, x, if useBuffer s
                    then Inr (slice_from (bufferSize s * -1) (buffer_f (objs v (ref s)) @ [x]))
                    else Inl getBuffer_error)])
   \<and> (1 \<le> bufferSize s \<longrightarrow>
        slice_from (bufferSize s * -1) (buffer_f (objs v (ref s)) @ [x])
        = most_recent (nat (bufferSize s) - 1) (buffer_f (objs v (ref s))) @ [x])"
proof -
  have "subscribe_callback this listener x w
     = listener x
         (w\<lparr>objs := (objs w)(ref this :=
              \<lparr>last_f = x,
               buffer_f = (if useBuffer this
                           then slice_from (bufferSize this * -1) (buffer_f (objs w (ref this)) @ [x])
                           else buffer_f (objs w (ref this)))\<rparr>)\<rparr>)"
    by (cases "objs w (ref this)")
       (simp add: subscribe_callback_def assign_last_def assign_buffer_def Let_def)
  moreover have "after (subscribe_callback s (probe s) x v) user
     = Inr (user v @
            [(x, x, if useBuffer s
                    then Inr (slice_from (bufferSize s * -1) (buffer_f (objs v (ref s)) @ [x]))
                    else Inl getBuffer_error)])"
    by (simp add: subscribe_callback_noted probe_def getLast_def getBuffer_def noted_buffer)
  moreover have "slice_from (bufferSize s * -1) (buffer_f (objs v (ref s)) @ [x])
        = most_recent (nat (bufferSize s) - 1) (buffer_f (objs v (ref s))) @ [x]"
    if "1 \<le> bufferSize s"
  proof -
    have "Suc (length b) - nat (bufferSize s) = length b - (nat (bufferSize s) - 1)"
      for b :: "jsval list"
      using that by arith
    moreover have "Suc (length b) - nat (bufferSize s) \<le> length b" for b :: "jsval list"
      using that by arith
    ultimately show ?thesis
      using that by (simp add: slice_from_negative most_recent_def)
  qed
  ultimately show ?thesis
    by (simp add: subscribe_def)
qed

theorem state_updated_before_listener_witness:
  "(1::int) \<le> 3
   \<and> (let c = constructor (\<lambda>next. forEach [Num 2, Num 4, Num 1, Num 5, Num 5] next)
                (Some \<lparr>useBuffer_opt = True, bufferSize_opt = 3\<rparr>) (empty_world [])
      in after (subscribe (fst c) (probe (fst c)) (snd c)) user)
     = Inr [(Num 2, Num 2, Inr [Num 2]), (Num 4, Num 4, Inr [Num 2, Num 4]),
            (Num 1, Num 1, Inr [Num 2, Num 4, Num 1]), (Num 5, Num 5, Inr [Num 4, Num 1, Num 5]),
            (Num 5, Num 5, Inr [Num 1, Num 5, Num 5])]"
  using state_updated_before_listener
    [where xs = "[Num 2, Num 4, Num 1, Num 5, Num 5]"
       and options = "Some \<lparr>useBuffer_opt = True, bufferSize_opt = 3\<rparr>"
       and ?w0.0 = "empty_world []"
       and s = "fst (constructor (\<lambda>next. forEach [Num 2, Num 4, Num 1, Num 5, Num 5] next)
                  (Some \<lparr>useBuffer_opt = True, bufferSize_opt = 3\<rparr>) (empty_world []))"
       and listener = "probe (fst (constructor
                  (\<lambda>next. forEach [Num 2, Num 4, Num 1, Num 5, Num 5] next)
                  (Some \<lparr>useBuffer_opt = True, bufferSize_opt = 3\<rparr>) (empty_world [])))"
       and w = "snd (constructor (\<lambda>next. forEach [Num 2, Num 4, Num 1, Num 5, Num 5] next)
                  (Some \<lparr>useBuffer_opt = True, bufferSize_opt = 3\<rparr>) (empty_world []))"]
  by (simp add: Let_def subscribe_callback_noted probe_def noted_def assign_last_def
      assign_buffer_def getLast_def getBuffer_def slice_from_def slice_def empty_world_def)

section \<open>C4: \<open>getBuffer\<close> without buffering\<close>

text \<open>
  Claim C4. For a stream made by the constructor, \<open>getBuffer\<close> throws its error exactly
  when no options were given or \<open>useBuffer\<close> was false; otherwise it returns the buffer
  of the stream as it is in the world, which is empty right after construction.
  \<open>getBuffer\<close> only reads: its result carries no world.
\<close>

theorem getBuffer_raises_iff_not_enabled:
  "getBuffer (fst (constructor gen options w0)) w
     = (if (case options of None \<Rightarrow> False | Some opt \<Rightarrow> useBuffer_opt opt)
        then Inr (buffer_f (objs w (ref (fst (constructor gen options w0)))))
        else Inl getBuffer_error)
   \<and> isl (getBuffer (fst (constructor gen options w0)) w)
     = (case options of None \<Rightarrow> True | Some opt \<Rightarrow> \<not> useBuffer_opt opt)
   \<and> (let c = constructor gen (Some \<lparr>useBuffer_opt = True, bufferSize_opt = n\<rparr>) w0
      in getBuffer (fst c) (snd c)) = Inr []"
  by (simp add: getBuffer_def Let_def split: option.splits)


section \<open>Merged subscriptions\<close>

lemma noted_eq:
  "noted this x w = w\<lparr>objs := (objs w)(ref this := note_fields this x (objs w (ref this)))\<rparr>"
  by (simp add: noted_def note_fields_def assign_last_def assign_buffer_def Let_def)

lemma noted_ts_eq:
  "noted_ts this x w = w\<lparr>objs := (objs w)(ref this := note_fields_ts this x (objs w (ref this)))\<rparr>"
  by (simp add: noted_ts_def note_fields_ts_def assign_last_def assign_buffer_def Let_def)

lemma fold_local_update:
  assumes upd: "\<And>x w. upd x w = w\<lparr>objs := (objs w)(r := nf x (objs w r))\<rparr>"
  shows "objs (fold upd xs w) r = fold nf xs (objs w r)"
  by (induction xs arbitrary: w) (simp_all add: upd)

text \<open>
  One input of a merged stream delivering its values: the callback of the input, then
  the callback of the merged stream, then the recording listener.
\<close>

lemma input_run:
  assumes cbk: "\<And>s l x w. cbk s l x w = l x (upd s x w)"
    and upd: "\<And>s x w. upd s x w = w\<lparr>objs := (objs w)(ref s := nf s x (objs w (ref s)))\<rparr>"
  shows "\<exists>W. forEach xs (cbk s (cbk m mockListener)) w = Inr W
           \<and> user W = user w @ xs
           \<and> (ref m \<noteq> ref s \<longrightarrow> objs W (ref s) = fold (nf s) xs (objs w (ref s)))
           \<and> (\<forall>r. r \<noteq> ref s \<longrightarrow> r \<noteq> ref m \<longrightarrow> objs W r = objs w r)"
proof (induction xs arbitrary: w)
  case Nil
  show ?case by simp
next
  case (Cons x xs)
  define w1 where "w1 = (upd m x (upd s x w))\<lparr>user := user w @ [x]\<rparr>"
  have step: "cbk s (cbk m mockListener) x w = Inr w1"
    by (simp add: cbk mockListener_def w1_def upd)
  have w1: "user w1 = user w @ [x]"
    "ref m \<noteq> ref s \<Longrightarrow> objs w1 (ref s) = nf s x (objs w (ref s))"
    "\<And>r. r \<noteq> ref s \<Longrightarrow> r \<noteq> ref m \<Longrightarrow> objs w1 r = objs w r"
    by (simp_all add: w1_def upd)
  from Cons.IH [of w1] obtain W where W: "forEach xs (cbk s (cbk m mockListener)) w1 = Inr W"
    "user W = user w1 @ xs"
    "ref m \<noteq> ref s \<longrightarrow> objs W (ref s) = fold (nf s) xs (objs w1 (ref s))"
    "\<forall>r. r \<noteq> ref s \<longrightarrow> r \<noteq> ref m \<longrightarrow> objs W r = objs w1 r"
    by blast
  have "forEach (x # xs) (cbk s (cbk m mockListener)) w = Inr W"
    by (simp add: step W(1))
  moreover have "user W = user w @ x # xs"
    by (simp add: W(2) w1(1))
  moreover have "ref m \<noteq> ref s \<longrightarrow> objs W (ref s) = fold (nf s) (x # xs) (objs w (ref s))"
    using W(3) w1(2) by simp
  moreover have "\<forall>r. r \<noteq> ref s \<longrightarrow> r \<noteq> ref m \<longrightarrow> objs W r = objs w r"
    using W(4) w1(3) by simp
  ultimately show ?case by blast
qed

lemma merged_run:
  assumes cbk: "\<And>s l x w. cbk s l x w = l x (upd s x w)"
    and upd: "\<And>s x w. upd s x w = w\<lparr>objs := (objs w)(ref s := nf s x (objs w (ref s)))\<rparr>"
    and sub: "\<And>s l. sub s l = generator s (cbk s l)"
    and emits: "list_all2 emits streams Ss"
  shows "\<exists>W. forEach streams (\<lambda>s. sub s (cbk m mockListener)) w = Inr W
           \<and> user W = user w @ concat Ss
           \<and> (distinct (map ref streams) \<and> ref m \<notin> set (map ref streams) \<longrightarrow>
                (\<forall>i<length streams.
                   objs W (ref (streams ! i)) = fold (nf (streams ! i)) (Ss ! i) (objs w (ref (streams ! i))))
                \<and> (\<forall>r. r \<notin> set (map ref streams) \<longrightarrow> r \<noteq> ref m \<longrightarrow> objs W r = objs w r))"
  using emits
proof (induction streams Ss arbitrary: w rule: list_all2_induct)
  case Nil
  show ?case by simp
next
  case (Cons s ss xs xss)
  let ?f = "\<lambda>s. sub s (cbk m mockListener)"
  have "?f s w = forEach xs (cbk s (cbk m mockListener)) w"
    using Cons.hyps(1) by (simp add: sub emits_def)
  with input_run [of cbk upd nf xs s m w, OF cbk upd]
  obtain W1 where W1: "?f s w = Inr W1" "user W1 = user w @ xs"
    "ref m \<noteq> ref s \<longrightarrow> objs W1 (ref s) = fold (nf s) xs (objs w (ref s))"
    "\<forall>r. r \<noteq> ref s \<longrightarrow> r \<noteq> ref m \<longrightarrow> objs W1 r = objs w r"
    by auto
  from Cons.IH [of W1] obtain W where W: "forEach ss ?f W1 = Inr W"
    "user W = user W1 @ concat xss"
    "distinct (map ref ss) \<and> ref m \<notin> set (map ref ss) \<longrightarrow>
       (\<forall>i<length ss. objs W (ref (ss ! i)) = fold (nf (ss ! i)) (xss ! i) (objs W1 (ref (ss ! i))))
       \<and> (\<forall>r. r \<notin> set (map ref ss) \<longrightarrow> r \<noteq> ref m \<longrightarrow> objs W r = objs W1 r)"
    by blast
  have run: "forEach (s # ss) ?f w = Inr W"
    by (simp add: W1(1) W(1))
  have usr: "user W = user w @ concat (xs # xss)"
    by (simp add: W(2) W1(2))
  have state: "(\<forall>i<length (s # ss).
                   objs W (ref ((s # ss) ! i)) = fold (nf ((s # ss) ! i)) ((xs # xss) ! i) (objs w (ref ((s # ss) ! i))))
                \<and> (\<forall>r. r \<notin> set (map ref (s # ss)) \<longrightarrow> r \<noteq> ref m \<longrightarrow> objs W r = objs w r)"
    if d: "distinct (map ref (s # ss))" "ref m \<notin> set (map ref (s # ss))"
  proof -
    from d have d': "distinct (map ref ss)" "ref m \<notin> set (map ref ss)" "ref m \<noteq> ref s"
      "ref s \<notin> set (map ref ss)"
      by auto
    from W(3) d' have tl: "\<And>i. i < length ss \<Longrightarrow>
        objs W (ref (ss ! i)) = fold (nf (ss ! i)) (xss ! i) (objs W1 (ref (ss ! i)))"
      and frame: "\<And>r. r \<notin> set (map ref ss) \<Longrightarrow> r \<noteq> ref m \<Longrightarrow> objs W r = objs W1 r"
      by blast+
    have hd: "objs W (ref s) = fold (nf s) xs (objs w (ref s))"
      using frame [of "ref s"] d' W1(3) by simp
    have tl': "objs W (ref (ss ! i)) = fold (nf (ss ! i)) (xss ! i) (objs w (ref (ss ! i)))"
      if "i < length ss" for i
    proof -
      from that have "ref (ss ! i) \<in> set (map ref ss)" by simp
      with d' have "ref (ss ! i) \<noteq> ref s" "ref (ss ! i) \<noteq> ref m" by auto
      with W1(4) have "objs W1 (ref (ss ! i)) = objs w (ref (ss ! i))" by simp
      with tl [OF that] show ?thesis by simp
    qed
    have "objs W (ref ((s # ss) ! i)) = fold (nf ((s # ss) ! i)) ((xs # xss) ! i) (objs w (ref ((s # ss) ! i)))"
      if "i < length (s # ss)" for i
      using that hd tl' by (cases i) simp_all
    moreover have "objs W r = objs w r" if "r \<notin> set (map ref (s # ss))" "r \<noteq> ref m" for r
      using that frame [of r] W1(4) by simp
    ultimately show ?thesis by blast
  qed
  from run usr state show ?case by blast
qed


lemma subscribe_merge:
  "subscribe (fst (merge streams w0)) l
     = forEach streams (\<lambda>s. subscribe s (subscribe_callback (fst (merge streams w0)) l))"
  by (simp add: subscribe_def merge_def)

lemma subscribe_ts_merge_ts:
  "subscribe_ts (fst (merge_ts streams w0)) l
     = forEach streams (\<lambda>s. subscribe_ts s (subscribe_callback_ts (fst (merge_ts streams w0)) l))"
  by (simp add: subscribe_ts_def merge_ts_def)

lemma ref_merge [simp]:
  "ref (fst (merge streams w0)) = fresh w0" "ref (fst (merge_ts streams w0)) = fresh w0"
  by (simp_all add: merge_def merge_ts_def)

lemma user_after_new [simp]:
  "user (snd (from_array S w)) = user w"
  "user (snd (merge streams w)) = user w"
  "user (snd (merge_ts streams w)) = user w"
  "user (empty_world u) = u"
  by (simp_all add: from_array_def merge_def merge_ts_def empty_world_def)

lemma world_after_merge [simp]:
  "objs (snd (merge streams w)) = (objs w)(fresh w := \<lparr>last_f = Undefined, buffer_f = []\<rparr>)"
  "fresh (snd (merge streams w)) = Suc (fresh w)"
  by (simp_all add: merge_def)

lemma fold_noted_ts_last:
  "last_f (objs (fold (noted_ts this) xs w) (ref this)) =
     (if xs = [] then last_f (objs w (ref this)) else last xs)"
  by (induction xs arbitrary: w) simp_all

text \<open>
  Claim C5. Let the producers of the input streams emit synchronously and exhaustively,
  the \<open>i\<close>-th the sequence \<open>Ss ! i\<close>. One \<open>subscribe\<close> on \<open>merge(streams)\<close> calls the recording
  listener with \<open>concat Ss\<close>: the values of the first stream in its order, then those of
  the second, and so on. This holds with \<open>merge\<close> and \<open>subscribe\<close> of either revision.
  The witness is \<open>merge(from([1,2]), from(['a','b']))\<close>: four calls, with 1, 2, 'a', 'b'.
\<close>

theorem merge_delivers_in_stream_order:
  assumes "list_all2 emits streams Ss"
  shows "after (subscribe (fst (merge streams w0)) mockListener w) user = Inr (user w @ concat Ss)
       \<and> after (subscribe_ts (fst (merge_ts streams w0)) mockListener w) user
           = Inr (user w @ concat Ss)"
proof -
  from merged_run [of subscribe_callback noted note_fields subscribe streams Ss
      "fst (merge streams w0)" w, OF subscribe_callback_noted noted_eq subscribe_def assms]
  have "after (subscribe (fst (merge streams w0)) mockListener w) user = Inr (user w @ concat Ss)"
    by (auto simp: subscribe_merge)
  moreover
  from merged_run [of subscribe_callback_ts noted_ts note_fields_ts subscribe_ts streams Ss
      "fst (merge_ts streams w0)" w,
      OF subscribe_callback_ts_noted noted_ts_eq subscribe_ts_def assms]
  have "after (subscribe_ts (fst (merge_ts streams w0)) mockListener w) user
        = Inr (user w @ concat Ss)"
    by (auto simp: subscribe_ts_merge_ts)
  ultimately show ?thesis by blast
qed

theorem merge_delivers_in_stream_order_witness:
  "(let a = from_array [Num 1, Num 2] (empty_world []);
        b = from_array [Str ''a'', Str ''b''] (snd a);
        m = merge [fst a, fst b] (snd b)
    in list_all2 emits [fst a, fst b] [[Num 1, Num 2], [Str ''a'', Str ''b'']]
       \<and> after (subscribe (fst m) mockListener (snd m)) user
           = Inr [Num 1, Num 2, Str ''a'', Str ''b''])"
  using merge_delivers_in_stream_order
    [of "[fst (from_array [Num 1, Num 2] (empty_world [])),
          fst (from_array [Str ''a'', Str ''b'']
                 (snd (from_array [Num 1, Num 2] (empty_world []))))]"
        "[[Num 1, Num 2], [Str ''a'', Str ''b'']]"
        "snd (from_array [Str ''a'', Str ''b'']
                 (snd (from_array [Num 1, Num 2] (empty_world []))))"
        "snd (merge [fst (from_array [Num 1, Num 2] (empty_world [])),
                     fst (from_array [Str ''a'', Str ''b'']
                        (snd (from_array [Num 1, Num 2] (empty_world []))))]
               (snd (from_array [Str ''a'', Str ''b'']
                 (snd (from_array [Num 1, Num 2] (empty_world []))))))"]
  by (simp add: Let_def emits_from)


text \<open>The fields of an input after the merged subscription and after its own.\<close>

lemma merged_input_fields:
  assumes "list_all2 emits streams Ss" and "distinct (map ref streams)"
    and "\<forall>s\<in>set streams. ref s < fresh w0" and "i < length streams"
  shows "after (subscribe (fst (merge streams w0)) mockListener w) (\<lambda>W. objs W (ref (streams ! i)))
         = Inr (objs (fold (noted (streams ! i)) (Ss ! i) w) (ref (streams ! i)))"
    and "after (subscribe_ts (fst (merge_ts streams w0)) mockListener w) (\<lambda>W. objs W (ref (streams ! i)))
         = Inr (objs (fold (noted_ts (streams ! i)) (Ss ! i) w) (ref (streams ! i)))"
proof -
  from assms(3) have notin: "fresh w0 \<notin> set (map ref streams)"
    by auto
  from merged_run [of subscribe_callback noted note_fields subscribe streams Ss
      "fst (merge streams w0)" w, OF subscribe_callback_noted noted_eq subscribe_def assms(1)]
    assms(2,4) notin
  show "after (subscribe (fst (merge streams w0)) mockListener w) (\<lambda>W. objs W (ref (streams ! i)))
         = Inr (objs (fold (noted (streams ! i)) (Ss ! i) w) (ref (streams ! i)))"
    by (auto simp: subscribe_merge fold_local_update [of "noted (streams ! i)", OF noted_eq])
  from merged_run [of subscribe_callback_ts noted_ts note_fields_ts subscribe_ts streams Ss
      "fst (merge_ts streams w0)" w,
      OF subscribe_callback_ts_noted noted_ts_eq subscribe_ts_def assms(1)]
    assms(2,4) notin
  show "after (subscribe_ts (fst (merge_ts streams w0)) mockListener w) (\<lambda>W. objs W (ref (streams ! i)))
         = Inr (objs (fold (noted_ts (streams ! i)) (Ss ! i) w) (ref (streams ! i)))"
    by (auto simp: subscribe_ts_merge_ts
        fold_local_update [of "noted_ts (streams ! i)", OF noted_ts_eq])
qed

lemma getters_fun:
  "getLast s = (\<lambda>w. last_f (objs w (ref s)))"
  "getBuffer s = (\<lambda>w. if useBuffer s then Inr (buffer_f (objs w (ref s))) else Inl getBuffer_error)"
  "getBuffer_ts s = (\<lambda>w. buffer_f (objs w (ref s)))"
  by (rule ext, simp add: getLast_def getBuffer_def getBuffer_ts_def)+

lemma after_read:
  "after r f = Inr v \<Longrightarrow> after r (\<lambda>W. g (f W)) = Inr (g v)"
  by (cases r) (simp_all add: after_def)

text \<open>
  Claim C9. Let the input streams be distinct objects, allocated before the merged
  stream, whose producers emit synchronously and exhaustively. After one \<open>subscribe\<close> on
  \<open>merge(streams)\<close>, \<open>getLast\<close> of every input returns the last value that input emitted
  (its old value when it emitted nothing), and \<open>getBuffer\<close> of every input returns what it
  returns after a \<open>subscribe\<close> on that input itself; with buffering enabled and a
  capacity of at least 1 these are the most recent values of the old buffer followed by
  the input's emissions. In the revision of src/src/index.ts, where every stream
  buffers, the buffer of every input is the first ten values of the old buffer followed
  by the input's emissions.
\<close>

theorem merge_updates_inputs:
  assumes "list_all2 emits streams Ss" and "distinct (map ref streams)"
    and "\<forall>s\<in>set streams. ref s < fresh w0" and "i < length streams"
  shows "after (subscribe (fst (merge streams w0)) mockListener w) (getLast (streams ! i))
           = Inr (if Ss ! i = [] then getLast (streams ! i) w else last (Ss ! i))
       \<and> after (subscribe (fst (merge streams w0)) mockListener w) (getBuffer (streams ! i))
           = after (subscribe (streams ! i) mockListener w) (getBuffer (streams ! i))
       \<and> (useBuffer (streams ! i) \<and> 1 \<le> bufferSize (streams ! i)
            \<and> length (buffer_f (objs w (ref (streams ! i)))) \<le> nat (bufferSize (streams ! i))
          \<longrightarrow> after (subscribe (fst (merge streams w0)) mockListener w) (getBuffer (streams ! i))
              = Inr (Inr (most_recent (nat (bufferSize (streams ! i)))
                            (buffer_f (objs w (ref (streams ! i))) @ Ss ! i))))
       \<and> after (subscribe_ts (fst (merge_ts streams w0)) mockListener w) (getLast (streams ! i))
           = Inr (if Ss ! i = [] then getLast (streams ! i) w else last (Ss ! i))
       \<and> after (subscribe_ts (fst (merge_ts streams w0)) mockListener w) (getBuffer_ts (streams ! i))
           = Inr (if Ss ! i = [] then getBuffer_ts (streams ! i) w
                  else take 10 (getBuffer_ts (streams ! i) w @ Ss ! i))"
proof -
  let ?s = "streams ! i" and ?xs = "Ss ! i"
  note flds = merged_input_fields [OF assms, of w]
  have em: "emits ?s ?xs"
    using assms(1,4) by (simp add: list_all2_nthD)
  have own: "after (subscribe ?s mockListener w) (getBuffer ?s)
             = Inr (getBuffer ?s (fold (noted ?s) ?xs w))"
    by (simp add: subscribe_emits [OF em] forEach_mock_buffer)
  have l: "after (subscribe (fst (merge streams w0)) mockListener w) (getLast ?s)
           = Inr (if ?xs = [] then getLast ?s w else last ?xs)"
    using after_read [OF flds(1), of last_f]
    by (simp add: getters_fun(1) fold_noted_last)
  have b: "after (subscribe (fst (merge streams w0)) mockListener w) (getBuffer ?s)
           = Inr (getBuffer ?s (fold (noted ?s) ?xs w))"
    using after_read [OF flds(1), of "\<lambda>f. if useBuffer ?s then Inr (buffer_f f) else Inl getBuffer_error"]
    by (simp add: getters_fun(2))
  have b': "after (subscribe (fst (merge streams w0)) mockListener w) (getBuffer ?s)
              = Inr (Inr (most_recent (nat (bufferSize ?s)) (buffer_f (objs w (ref ?s)) @ ?xs)))"
    if "useBuffer ?s" "1 \<le> bufferSize ?s"
      "length (buffer_f (objs w (ref ?s))) \<le> nat (bufferSize ?s)"
    using that b fold_noted_buffer [of ?s w ?xs] by (simp add: getBuffer_def)
  have lt: "after (subscribe_ts (fst (merge_ts streams w0)) mockListener w) (getLast ?s)
           = Inr (if ?xs = [] then getLast ?s w else last ?xs)"
    using after_read [OF flds(2), of last_f]
    by (simp add: getters_fun(1) fold_noted_ts_last)
  have bt: "after (subscribe_ts (fst (merge_ts streams w0)) mockListener w) (getBuffer_ts ?s)
           = Inr (if ?xs = [] then getBuffer_ts ?s w else take 10 (getBuffer_ts ?s w @ ?xs))"
    using after_read [OF flds(2), of buffer_f]
    by (simp add: getters_fun(3) fold_noted_ts_buffer)
  from l b own b' lt bt show ?thesis by simp
qed


theorem merge_updates_inputs_witness:
  "(let a = constructor (\<lambda>next. forEach [Num 1, Num 2, Num 3] next)
              (Some \<lparr>useBuffer_opt = True, bufferSize_opt = 2\<rparr>) (empty_world []);
        b = constructor (\<lambda>next. forEach [Str ''a'', Str ''b''] next) None (snd a);
        m = merge [fst a, fst b] (snd b)
    in list_all2 emits [fst a, fst b] [[Num 1, Num 2, Num 3], [Str ''a'', Str ''b'']]
       \<and> distinct (map ref [fst a, fst b])
       \<and> ref (fst a) < fresh (snd b) \<and> ref (fst b) < fresh (snd b)
       \<and> (0::nat) < length [fst a, fst b]
       \<and> after (subscribe (fst m) mockListener (snd m)) (getLast (fst a)) = Inr (Num 3)
       \<and> after (subscribe (fst m) mockListener (snd m)) (getBuffer (fst a))
           = Inr (Inr [Num 2, Num 3]))"
proof -
  let ?a = "constructor (\<lambda>next. forEach [Num 1, Num 2, Num 3] next)
              (Some \<lparr>useBuffer_opt = True, bufferSize_opt = 2\<rparr>)
              (empty_world ([] :: jsval list))"
  let ?b = "constructor (\<lambda>next. forEach [Str ''a'', Str ''b''] next) None (snd ?a)"
  let ?m = "merge [fst ?a, fst ?b] (snd ?b)"
  have h1: "list_all2 emits [fst ?a, fst ?b] [[Num 1, Num 2, Num 3], [Str ''a'', Str ''b'']]"
    by (simp add: emits_def)
  have h2: "distinct (map ref [fst ?a, fst ?b])"
    by simp
  have h3: "\<forall>s\<in>set [fst ?a, fst ?b]. ref s < fresh (snd ?b)"
    by (simp add: empty_world_def)
  have h4: "0 < length [fst ?a, fst ?b]"
    by simp
  have b0: "buffer_f (objs (snd ?m) (ref (fst ?a))) = []"
    by (simp add: empty_world_def)
  note inputs = merge_updates_inputs [OF h1 h2 h3 h4, of "snd ?m"]
  from inputs [THEN conjunct1]
  have "after (subscribe (fst ?m) mockListener (snd ?m)) (getLast (fst ?a)) = Inr (Num 3)"
    by simp
  moreover from inputs [THEN conjunct2, THEN conjunct2, THEN conjunct1]
  have "after (subscribe (fst ?m) mockListener (snd ?m)) (getBuffer (fst ?a))
           = Inr (Inr [Num 2, Num 3])"
    by (simp add: b0 most_recent_def)
  moreover have "ref (fst ?a) < fresh (snd ?b)" and "ref (fst ?b) < fresh (snd ?b)"
    by (simp_all add: empty_world_def)
  ultimately show ?thesis
    using h1 h2 h4 by (simp add: Let_def)
qed


section \<open>\<open>withLatestFrom\<close>\<close>

text \<open>The subscription to the other stream, which assigns \<open>latest\<close>.\<close>

lemma track_latest:
  assumes trk: "\<And>x w. trk x w = Inr (w\<lparr>vars := (vars w)(L := x)\<rparr>)"
  shows "\<exists>W. forEach T (subscribe_callback_ts other trk) w = Inr W
       \<and> user W = user w
       \<and> vars W L = (if T = [] then vars w L else last T)
       \<and> last_f (objs W r) = (if ref other = r \<and> T \<noteq> [] then last T else last_f (objs w r))"
proof (induction T arbitrary: w)
  case Nil
  show ?case by simp
next
  case (Cons x T)
  define w1 where "w1 = (noted_ts other x w)\<lparr>vars := (vars w)(L := x)\<rparr>"
  have step: "subscribe_callback_ts other trk x w = Inr w1"
    by (simp add: subscribe_callback_ts_noted w1_def trk)
  have w1: "user w1 = user w" "vars w1 L = x"
    "last_f (objs w1 r) = (if ref other = r then x else last_f (objs w r))"
    by (auto simp: w1_def)
  from Cons.IH [of w1] obtain W where
    W: "forEach T (subscribe_callback_ts other trk) w1 = Inr W"
    "user W = user w1" "vars W L = (if T = [] then vars w1 L else last T)"
    "last_f (objs W r) = (if ref other = r \<and> T \<noteq> [] then last T else last_f (objs w1 r))"
    by blast
  have "forEach (x # T) (subscribe_callback_ts other trk) w = Inr W"
    by (simp add: step W(1))
  moreover have "user W = user w"
    by (simp add: W(2) w1(1))
  moreover have "vars W L = (if x # T = [] then vars w L else last (x # T))"
    by (simp add: W(3) w1(2))
  moreover have "last_f (objs W r)
      = (if ref other = r \<and> x # T \<noteq> [] then last (x # T) else last_f (objs w r))"
    by (simp add: W(4) w1(3))
  ultimately show ?case by blast
qed

text \<open>The values of the primary stream, each answered with the same pair.\<close>

lemma emit_pairs:
  assumes "ref c \<noteq> r"
  shows "after (forEach S (\<lambda>y w. subscribe_callback_ts c mockListener
                                   (Arr [last_f (objs w r), vars w L]) w) w) user
         = Inr (user w @ replicate (length S) (Arr [last_f (objs w r), vars w L]))"
proof (induction S arbitrary: w)
  case Nil
  show ?case by simp
next
  case (Cons y S)
  define v where "v = Arr [last_f (objs w r), vars w L]"
  define w1 where "w1 = (noted_ts c v w)\<lparr>user := user w @ [v]\<rparr>"
  have step: "subscribe_callback_ts c mockListener (Arr [last_f (objs w r), vars w L]) w = Inr w1"
    by (simp add: subscribe_callback_ts_noted mockListener_def w1_def v_def)
  have w1: "user w1 = user w @ [v]" "vars w1 L = vars w L" "last_f (objs w1 r) = last_f (objs w r)"
    using assms by (simp_all add: w1_def)
  have "forEach (y # S) (\<lambda>y w. subscribe_callback_ts c mockListener
                                   (Arr [last_f (objs w r), vars w L]) w) w
        = forEach S (\<lambda>y w. subscribe_callback_ts c mockListener
                                   (Arr [last_f (objs w r), vars w L]) w) w1"
    using step by simp
  then show ?case
    using Cons.IH [of w1] w1 by (simp add: v_def replicate_app_Cons_same)
qed

lemma subscribe_ts_withLatestFrom:
  "subscribe_ts (fst (withLatestFrom this otherStream w0)) listener w
     = (let latest = fresh w;
            w1 = w\<lparr>vars := (vars w)(latest := Undefined), fresh := latest + 1\<rparr>
        in seq (subscribe_ts otherStream (\<lambda>x w. Inr (w\<lparr>vars := (vars w)(latest := x)\<rparr>)))
               (generator this
                  (\<lambda>y w. subscribe_callback_ts (fst (withLatestFrom this otherStream w0)) listener
                            (Arr [last_f (objs w (ref this)), vars w latest]) w)) w1)"
  by (simp add: subscribe_ts_def withLatestFrom_def Let_def)

lemma withLatestFrom_pairs:
  assumes "emits this S" and "emits otherStream T" and "ref this < fresh w0"
  shows "after (subscribe_ts (fst (withLatestFrom this otherStream w0)) mockListener w) user
         = Inr (user w @ replicate (length S)
                  (Arr [if ref otherStream = ref this \<and> T \<noteq> [] then last T else getLast this w,
                        if T = [] then Undefined else last T]))"
proof -
  let ?c = "fst (withLatestFrom this otherStream w0)"
  let ?L = "fresh w"
  let ?w1 = "w\<lparr>vars := (vars w)(?L := Undefined), fresh := ?L + 1\<rparr>"
  let ?trk = "\<lambda>x w. Inr (w\<lparr>vars := (vars w)(?L := x)\<rparr>)"
  from track_latest [of ?trk ?L T otherStream ?w1 "ref this"] obtain W where
    W: "forEach T (subscribe_callback_ts otherStream ?trk) ?w1 = Inr W"
    "user W = user w" "vars W ?L = (if T = [] then Undefined else last T)"
    "last_f (objs W (ref this))
       = (if ref otherStream = ref this \<and> T \<noteq> [] then last T else last_f (objs w (ref this)))"
    by auto
  have c: "ref ?c \<noteq> ref this"
    using assms(3) by (simp add: withLatestFrom_def)
  have "subscribe_ts ?c mockListener w
        = forEach S (\<lambda>y w. subscribe_callback_ts ?c mockListener
                              (Arr [last_f (objs w (ref this)), vars w ?L]) w) W"
    using assms(1,2) W(1)
    by (simp add: subscribe_ts_withLatestFrom Let_def seq_def subscribe_ts_emits emits_def)
  with emit_pairs [OF c, of S ?L W] W(2-4) show ?thesis
    by (simp add: getLast_def)
qed


text \<open>
  Claim C8. For every pair of streams, a \<open>subscribe\<close> on
  \<open>this.withLatestFrom(otherStream)\<close> declares \<open>latest\<close> (undefined), subscribes to
  \<open>otherStream\<close> with a listener that assigns \<open>latest\<close>, and then runs the producer of
  \<open>this\<close>; for every value that producer delivers it emits the pair of \<open>this.last\<close>, as it
  is in the world at that moment (the delivered value itself is not used and does not
  change it), and \<open>latest\<close>. When the two producers emit \<open>S\<close> and \<open>T\<close> synchronously, the
  recording listener gets \<open>len(S)\<close> pairs, all of them the \<open>last\<close> that \<open>this\<close> had before
  the call (the last of \<open>T\<close> if the two streams are one object) with the last value of
  \<open>T\<close>, or with undefined when \<open>T\<close> is empty.
\<close>

theorem withLatestFrom_emits_pairs:
  "subscribe_ts (fst (withLatestFrom this otherStream w0)) listener w
     = (let latest = fresh w;
            w1 = w\<lparr>vars := (vars w)(latest := Undefined), fresh := latest + 1\<rparr>
        in seq (subscribe_ts otherStream (\<lambda>x w. Inr (w\<lparr>vars := (vars w)(latest := x)\<rparr>)))
               (generator this
                  (\<lambda>y w. subscribe_callback_ts (fst (withLatestFrom this otherStream w0)) listener
                            (Arr [getLast this w, vars w latest]) w)) w1)
   \<and> (emits p S \<and> emits q T \<and> ref p < fresh v0 \<longrightarrow>
        after (subscribe_ts (fst (withLatestFrom p q v0)) mockListener v) user
        = Inr (user v @ replicate (length S)
                 (Arr [if ref q = ref p \<and> T \<noteq> [] then last T else getLast p v,
                       if T = [] then Undefined else last T])))"
  using withLatestFrom_pairs [of p S q T v0 v]
  by (simp add: subscribe_ts_withLatestFrom getLast_def)

theorem withLatestFrom_emits_pairs_witness:
  "(let a = from_array [Num 1, Num 2] (empty_world []);
        b = from_array [Str ''x'', Str ''y''] (snd a);
        c = withLatestFrom (fst a) (fst b) (snd b)
    in emits (fst a) [Num 1, Num 2] \<and> emits (fst b) [Str ''x'', Str ''y'']
       \<and> ref (fst a) < fresh (snd b)
       \<and> after (subscribe_ts (fst c) mockListener (snd c)) user
           = Inr [Arr [Undefined, Str ''y''], Arr [Undefined, Str ''y'']])"
proof -
  let ?a = "from_array [Num 1, Num 2] (empty_world ([] :: jsval list))"
  let ?b = "from_array [Str ''x'', Str ''y''] (snd ?a)"
  let ?c = "withLatestFrom (fst ?a) (fst ?b) (snd ?b)"
  have h: "emits (fst ?a) [Num 1, Num 2]" "emits (fst ?b) [Str ''x'', Str ''y'']"
    "ref (fst ?a) < fresh (snd ?b)"
    by (simp_all add: emits_def from_array_def)
  have "getLast (fst ?a) (snd ?c) = Undefined"
    by (simp add: getLast_def from_array_def withLatestFrom_def empty_world_def)
  moreover have "ref (fst ?b) \<noteq> ref (fst ?a)"
    by (simp add: from_array_def)
  moreover have "user (snd ?c) = []"
    by (simp add: withLatestFrom_def from_array_def empty_world_def)
  moreover note withLatestFrom_emits_pairs [THEN conjunct2, rule_format,
      of "fst ?a" "[Num 1, Num 2]" "fst ?b" "[Str ''x'', Str ''y'']" "snd ?b" "snd ?c"]
  ultimately show ?thesis
    using h by (simp add: Let_def)
qed


end
